theory Spec2Isabelle
  imports Main "HOL-Library.Sublist" "HOL-Library.Char_ord" "HOL-Library.List_Lexorder"
begin

section \<open>Python strings\<close>

text \<open>
  A Python \<open>str\<close> is modelled as a \<^typ>\<open>string\<close> whose characters are the code points
  below 256. The character classes below are the ones CPython uses on that range:
  \<open>str.isspace\<close> (used by \<open>strip\<close>), the regular expression class \<open>\w\<close>
  (\<open>str.isalnum\<close> or an underscore) and the simple case mappings.
\<close>

definition isspace :: "char \<Rightarrow> bool" where
  "isspace c = (let n = (of_char c :: nat) in
     (9 \<le> n \<and> n \<le> 13) \<or> (28 \<le> n \<and> n \<le> 32) \<or> n = 133 \<or> n = 160)"

definition is_word_char :: "char \<Rightarrow> bool" where
  "is_word_char c = (let n = (of_char c :: nat) in
     (48 \<le> n \<and> n \<le> 57) \<or> (65 \<le> n \<and> n \<le> 90) \<or> n = 95 \<or> (97 \<le> n \<and> n \<le> 122) \<or>
     n = 170 \<or> n = 178 \<or> n = 179 \<or> n = 181 \<or> n = 185 \<or> n = 186 \<or>
     (188 \<le> n \<and> n \<le> 190) \<or> (192 \<le> n \<and> n \<noteq> 215 \<and> n \<noteq> 247))"

definition lower_char :: "char \<Rightarrow> char" where
  "lower_char c = (let n = (of_char c :: nat) in
     if (65 \<le> n \<and> n \<le> 90) \<or> (192 \<le> n \<and> n \<le> 222 \<and> n \<noteq> 215)
     then char_of (n + 32) else c)"

text \<open>
  \<open>str.upper\<close> may lengthen a string: the sharp s (223) becomes \<open>SS\<close>. The upper-case
  forms of the code points 181 and 255 lie beyond the 8-bit range (U+039C, U+0178); they
  are kept as they are, being neither ASCII letters nor white space before or after.
\<close>

definition upper_char :: "char \<Rightarrow> string" where
  "upper_char c = (let n = (of_char c :: nat) in
     if (97 \<le> n \<and> n \<le> 122) \<or> (224 \<le> n \<and> n \<le> 254 \<and> n \<noteq> 247)
     then [char_of (n - 32)]
     else if n = 223 then ''SS'' else [c])"

definition str_lower :: "string \<Rightarrow> string" where
  "str_lower s = map lower_char s"

definition str_upper :: "string \<Rightarrow> string" where
  "str_upper s = concat (map upper_char s)"

definition str_strip :: "string \<Rightarrow> string" where
  "str_strip s = rev (dropWhile isspace (rev (dropWhile isspace s)))"

definition str_rstrip :: "char \<Rightarrow> string \<Rightarrow> string" where
  "str_rstrip ch s = rev (dropWhile (\<lambda>c. c = ch) (rev s))"

definition str_startswith :: "string \<Rightarrow> string \<Rightarrow> bool" where
  "str_startswith s p = (take (length p) s = p)"

text \<open>The operator \<open>sub in s\<close> on strings: \<open>sub\<close> occurs in \<open>s\<close> as a contiguous block.\<close>

fun str_in :: "string \<Rightarrow> string \<Rightarrow> bool" where
  "str_in sub [] = (sub = [])"
| "str_in sub (c # cs) = (str_startswith (c # cs) sub \<or> str_in sub cs)"

text \<open>Decimal rendering of an integer inside an f-string.\<close>

fun str_of_nat :: "nat \<Rightarrow> string" where
  "str_of_nat n =
     (if n < 10 then [char_of (48 + n)] else str_of_nat (n div 10) @ [char_of (48 + n mod 10)])"

definition str_of_int :: "int \<Rightarrow> string" where
  "str_of_int i = (if i < 0 then CHR ''-'' # str_of_nat (nat (- i)) else str_of_nat (nat i))"

section \<open>Dialects and rendering\<close>

datatype SQLDialect = SQLITE | POSTGRES | SQLSERVER | MYSQL

definition q :: "string \<Rightarrow> SQLDialect \<Rightarrow> string" where
  "q name d =
     (if d = SQLSERVER then ''['' @ name @ '']''
      else if d = MYSQL then ''`'' @ name @ ''`''
      else [CHR 0x22] @ name @ [CHR 0x22])"

text \<open>
  \<open>render_select(d, limit=None)\<close>: the limit is optional, and \<open>and limit\<close> is false
  for \<open>None\<close> and for \<open>0\<close>.
\<close>

definition render_select :: "SQLDialect \<Rightarrow> int option \<Rightarrow> string" where
  "render_select d limit =
     (case limit of
        Some n \<Rightarrow> if d = SQLSERVER \<and> n \<noteq> 0 then ''SELECT TOP '' @ str_of_int n else ''SELECT''
      | None \<Rightarrow> ''SELECT'')"

definition render_limit :: "SQLDialect \<Rightarrow> int \<Rightarrow> string" where
  "render_limit d limit = (if d = SQLSERVER then [] else ''LIMIT '' @ str_of_int limit)"

section \<open>Comment stripping and the keyword scan\<close>

text \<open>
  \<open>re.sub(r'--.*?$', '', sql, flags=re.MULTILINE)\<close>: a match starts at \<open>--\<close> and runs up
  to, not including, the next line feed (the only character the dot refuses and the only
  place besides the end where \<open>$\<close> holds); the scan goes on behind it.
\<close>

lemma dropWhile_shorter: "length (dropWhile P cs) < Suc (Suc (length cs))"
  using length_dropWhile_le [of P cs] by simp

function strip_line_comments :: "string \<Rightarrow> string" where
  "strip_line_comments [] = []"
| "strip_line_comments [c] = [c]"
| "strip_line_comments (c # d # cs) =
     (if c = CHR ''-'' \<and> d = CHR ''-''
      then strip_line_comments (dropWhile (\<lambda>x. x \<noteq> CHR 0x0A) cs)
      else c # strip_line_comments (d # cs))"
  by pat_completeness auto
termination
  by (relation "measure length") (auto simp: dropWhile_shorter)

text \<open>
  \<open>re.sub(r'/\*.*?\*/', '', sql, flags=re.DOTALL)\<close>: a match starts at \<open>/*\<close> and ends with
  the first \<open>*/\<close> that begins at least two characters later; \<open>find_close\<close> returns the text
  behind that terminator. Where there is no terminator the slash is kept.
\<close>

fun find_close :: "string \<Rightarrow> string option" where
  "find_close [] = None"
| "find_close [c] = None"
| "find_close (c # d # cs) =
     (if c = CHR ''*'' \<and> d = CHR ''/'' then Some cs else find_close (d # cs))"

lemma find_close_length: "find_close s = Some r \<Longrightarrow> length r < length s"
  by (induction s arbitrary: r rule: find_close.induct) (auto split: if_splits)

function strip_block_comments :: "string \<Rightarrow> string" where
  "strip_block_comments [] = []"
| "strip_block_comments [c] = [c]"
| "strip_block_comments (c # d # cs) =
     (if c = CHR ''/'' \<and> d = CHR ''*''
      then (case find_close cs of
              Some r \<Rightarrow> strip_block_comments r
            | None \<Rightarrow> c # strip_block_comments (d # cs))
      else c # strip_block_comments (d # cs))"
  by pat_completeness auto
termination
  by (relation "measure length") (auto dest: find_close_length)

definition strip_sql_comments :: "string \<Rightarrow> string" where
  "strip_sql_comments sql = str_strip (strip_block_comments (strip_line_comments sql))"

text \<open>
  \<open>re.search(rf'\b{word}\b', sql, re.IGNORECASE)\<close>. The assertion \<open>\b\<close> holds between two
  neighbours of which exactly one is a word character; the start and the end of the text
  count as non-word neighbours. A letter of the pattern matches a character of the same
  lower-case form. \<open>match_at prev w s\<close> tries the pattern where the unread text is \<open>s\<close>
  and the character before it is \<open>prev\<close>; \<open>search_from\<close> tries every position in turn.
\<close>

fun wordc :: "char option \<Rightarrow> bool" where
  "wordc None = False"
| "wordc (Some c) = is_word_char c"

definition boundary :: "char option \<Rightarrow> char option \<Rightarrow> bool" where
  "boundary p n = (wordc p \<noteq> wordc n)"

definition hd_opt :: "string \<Rightarrow> char option" where
  "hd_opt s = (case s of [] \<Rightarrow> None | c # _ \<Rightarrow> Some c)"

definition last_opt :: "char option \<Rightarrow> string \<Rightarrow> char option" where
  "last_opt prev s = (if s = [] then prev else Some (last s))"

definition match_at :: "char option \<Rightarrow> string \<Rightarrow> string \<Rightarrow> bool" where
  "match_at prev w s =
     (boundary prev (hd_opt s) \<and>
      length w \<le> length s \<and>
      str_lower (take (length w) s) = str_lower w \<and>
      boundary (last_opt prev (take (length w) s)) (hd_opt (drop (length w) s)))"

fun search_from :: "char option \<Rightarrow> string \<Rightarrow> string \<Rightarrow> bool" where
  "search_from prev w [] = match_at prev w []"
| "search_from prev w (c # cs) = (match_at prev w (c # cs) \<or> search_from (Some c) w cs)"

definition re_search_word :: "string \<Rightarrow> string \<Rightarrow> bool" where
  "re_search_word w sql = search_from None w sql"

definition dangerous :: "string list" where
  "dangerous = [''INSERT'', ''UPDATE'', ''DELETE'', ''DROP'', ''ALTER'', ''TRUNCATE'',
                ''CREATE'', ''REPLACE'', ''ATTACH'', ''DETACH'', ''PRAGMA'']"

text \<open>The loop over the list returns the first word that is found, else \<open>None\<close>.\<close>

definition contains_dangerous_sql :: "string \<Rightarrow> string option" where
  "contains_dangerous_sql sql = find (\<lambda>word. re_search_word word sql) dangerous"

section \<open>The engine and its safety gate\<close>

text \<open>
  The result of \<open>pd.read_sql_query\<close> is a table of cells; \<open>df.empty\<close> holds when an axis
  has length zero and \<open>len(df)\<close> counts the rows.
\<close>

record dataframe =
  df_columns :: "string list"
  df_rows :: "string list list"

definition df_empty :: "dataframe \<Rightarrow> bool" where
  "df_empty d = (df_rows d = [] \<or> df_columns d = [])"

record SandboxResult =
  status :: string
  df :: "dataframe option"
  message :: string

record DatabaseSchema =
  tables :: "string list"
  columns :: "(string \<times> string list) list"
  relationships :: "(string \<times> (string \<times> string \<times> string) list) list"

text \<open>
  The engine holds the connection (absent when not connected), the dialect, its name
  (the field \<open>name\<close>) and the schema cache. The state of the connection is of an abstract type \<open>'c\<close>.
\<close>

record 'c DatabaseEngine =
  conn :: "'c option"
  dialect :: SQLDialect
  engine_name :: string
  schema_cache :: "DatabaseSchema option"

text \<open>
  The hints appended to a backend error start with a symbol outside the 8-bit range; it is
  written here as the bytes of the source text.
\<close>

definition hint_symbol :: string where
  "hint_symbol = map char_of [0xC3, 0xB0, 0xC5, 0xB8, 0xE2, 0x80, 0x99, 0xC2, 0xA1 :: nat]"

definition annotate :: "string \<Rightarrow> string" where
  "annotate msg =
     (if str_in ''no such function'' (str_lower msg)
      then msg @ [CHR 0x0A, CHR 0x0A] @ hint_symbol @ '' This looks like SQL from another dialect.''
      else if str_in ''syntax error'' (str_lower msg)
      then msg @ [CHR 0x0A, CHR 0x0A] @ hint_symbol @ '' Check commas, joins, or keyword order.''
      else if str_in ''no such table'' (str_lower msg)
      then msg @ [CHR 0x0A, CHR 0x0A] @ hint_symbol @
             '' Table not found. Check spelling and refresh schema.''
      else msg)"

text \<open>
  \<open>execute_select\<close>. The driver call \<open>pd.read_sql_query(cleaned, self.conn)\<close> is the
  parameter \<open>read_sql_query\<close>: it acts on the state of the connection and either raises an
  exception, given by its message, or returns a table. The engine after the call is
  returned with the result, so that a call that never reaches the driver leaves the
  engine as it was. The test \<open>if not self.conn\<close> holds for an absent connection only, and
  \<open>if dangerous\<close> holds for every word the scan returns, none of them being empty. Only
  exceptions of class \<open>Exception\<close> are modelled, the ones the handler catches.
\<close>

definition execute_select ::
  "(string \<Rightarrow> 'c \<Rightarrow> (string + dataframe) \<times> 'c) \<Rightarrow> 'c DatabaseEngine \<Rightarrow> string \<Rightarrow>
     SandboxResult \<times> 'c DatabaseEngine" where
  "execute_select read_sql_query self sql =
     (case conn self of
        None \<Rightarrow> (\<lparr>status = ''error'', df = None, message = ''Not connected to database''\<rparr>, self)
      | Some c \<Rightarrow>
          if str_strip sql = [] then
            (\<lparr>status = ''warning'', df = None, message = ''No SQL provided.''\<rparr>, self)
          else
            let cleaned = strip_sql_comments sql in
            if CHR '';'' \<in> set (str_rstrip CHR '';'' cleaned) then
              (\<lparr>status = ''warning'', df = None,
                message = ''Multiple SQL statements detected. Only single SELECT statements are allowed.''\<rparr>,
               self)
            else
              (case contains_dangerous_sql cleaned of
                 Some word \<Rightarrow>
                   (\<lparr>status = ''warning'', df = None,
                     message = ''This query contains `'' @ word @
                               ''`. Execution is blocked to prevent data changes.''\<rparr>,
                    self)
               | None \<Rightarrow>
                   if \<not> str_startswith (str_strip (str_upper cleaned)) ''SELECT'' then
                     (\<lparr>status = ''warning'', df = None,
                       message = ''Only SELECT queries are allowed.''\<rparr>, self)
                   else
                     (case read_sql_query cleaned c of
                        (Inr d, c') \<Rightarrow>
                          if df_empty d then
                            (\<lparr>status = ''success'', df = Some d,
                              message = ''Query ran successfully but returned no rows.''\<rparr>,
                             self\<lparr>conn := Some c'\<rparr>)
                          else
                            (\<lparr>status = ''success'', df = Some d,
                              message = ''Query executed successfully. Returned '' @
                                        str_of_nat (length (df_rows d)) @ '' row(s).''\<rparr>,
                             self\<lparr>conn := Some c'\<rparr>)
                      | (Inl msg, c') \<Rightarrow>
                          (\<lparr>status = ''error'', df = None, message = annotate msg\<rparr>,
                           self\<lparr>conn := Some c'\<rparr>))))"

section \<open>The schema and the join-path search\<close>



definition rel_get :: "DatabaseSchema \<Rightarrow> string \<Rightarrow> (string \<times> string \<times> string) list" where
  "rel_get self t = (case map_of (relationships self) t of None \<Rightarrow> [] | Some l \<Rightarrow> l)"

type_synonym join_step = "string \<times> string \<times> string \<times> string"

text \<open>
  The state of the loop in \<open>find_join_path\<close>: the queue of (table, path so far) and the two
  sets \<open>visited\<close> and \<open>targets\<close>. The sets are kept as lists: the loop only tests
  membership and emptiness, adds to \<open>visited\<close> and removes from \<open>targets\<close>.
\<close>

record bfs_state =
  queue :: "(string \<times> join_step list) list"
  visited :: "string list"
  targets :: "string list"

text \<open>The first inner loop: the foreign keys of \<open>current\<close>, followed forwards.\<close>

definition forward_edges ::
  "DatabaseSchema \<Rightarrow> string list \<Rightarrow> string \<Rightarrow> join_step list \<Rightarrow> (string \<times> join_step list) list" where
  "forward_edges self vis current path =
     [(ref_table, path @ [(current, ref_table, local_col, ref_col)]).
        (ref_table, local_col, ref_col) \<leftarrow> rel_get self current, ref_table \<notin> set vis]"

text \<open>The second inner loop: the foreign keys of the unvisited tables that point at \<open>current\<close>.\<close>

definition backward_edges ::
  "DatabaseSchema \<Rightarrow> string list \<Rightarrow> string \<Rightarrow> join_step list \<Rightarrow> (string \<times> join_step list) list" where
  "backward_edges self vis current path =
     concat (map (\<lambda>table.
        if table \<notin> set vis
        then [(table, path @ [(current, table, ref_col, local_col)]).
                (ref_table, local_col, ref_col) \<leftarrow> rel_get self table, ref_table = current]
        else []) (tables self))"

text \<open>
  The rest of an iteration behind the target test: a visited table is skipped
  (\<open>continue\<close>), any other is marked and its neighbours are appended to the queue.
\<close>

definition expand :: "DatabaseSchema \<Rightarrow> string \<Rightarrow> join_step list \<Rightarrow> bfs_state \<Rightarrow> bfs_state" where
  "expand self current path st =
     (if current \<in> set (visited st) then st
      else st\<lparr>queue := queue st @ forward_edges self (current # visited st) current path
                                  @ backward_edges self (current # visited st) current path,
              visited := current # visited st\<rparr>)"

datatype outcome = Return "join_step list option" | Continue bfs_state

text \<open>
  One iteration of \<open>while queue\<close>. With an empty queue the loop is left and the function
  returns \<open>None\<close>. A table found among the targets is removed from them; when none is
  left the path is returned, else the queue restarts from this table alone, the visited
  set is emptied, and the iteration goes on with the visited test.
\<close>

definition bfs_step :: "DatabaseSchema \<Rightarrow> bfs_state \<Rightarrow> outcome" where
  "bfs_step self st =
     (case queue st of
        [] \<Rightarrow> Return None
      | (current, path) # rest \<Rightarrow>
          if current \<in> set (targets st) then
            (if removeAll current (targets st) = [] then Return (Some path)
             else Continue (expand self current path
                    \<lparr>queue = [(current, path)], visited = [],
                      targets = removeAll current (targets st)\<rparr>))
          else Continue (expand self current path (st\<lparr>queue := rest\<rparr>)))"

text \<open>Every table the search can meet: the listed tables and every referenced table.\<close>

definition universe :: "DatabaseSchema \<Rightarrow> string set" where
  "universe self = set (tables self @ concat (map (\<lambda>(k, l). map fst l) (relationships self)))"

definition bfs_measure :: "DatabaseSchema \<times> bfs_state \<Rightarrow> nat \<times> nat \<times> nat" where
  "bfs_measure = (\<lambda>(self, st).
     (length (targets st),
      card ((universe self \<union> fst ` set (queue st)) - set (visited st)),
      length (queue st)))"

lemma fst_forward_edges: "fst ` set (forward_edges self vis current path) \<subseteq> universe self"
proof
  fix t assume "t \<in> fst ` set (forward_edges self vis current path)"
  then obtain lc rc where m: "(t, lc, rc) \<in> set (rel_get self current)"
    by (auto simp: forward_edges_def)
  then obtain l where "map_of (relationships self) current = Some l" "(t, lc, rc) \<in> set l"
    by (cases "map_of (relationships self) current") (auto simp: rel_get_def)
  then have "(current, l) \<in> set (relationships self)" "t \<in> fst ` set l"
    by (auto dest: map_of_SomeD intro: rev_image_eqI)
  then show "t \<in> universe self" unfolding universe_def by force
qed

lemma fst_backward_edges: "fst ` set (backward_edges self vis current path) \<subseteq> universe self"
  by (auto simp: backward_edges_def universe_def split: if_splits)

lemma bfs_step_decreases:
  assumes "bfs_step self st = Continue st'"
  shows "(bfs_measure (self, st'), bfs_measure (self, st))
           \<in> less_than <*lex*> less_than <*lex*> less_than"
proof (cases "queue st")
  case Nil
  with assms show ?thesis by (simp add: bfs_step_def)
next
  case (Cons e rest)
  obtain current path where e: "e = (current, path)" by (cases e)
  let ?U = "universe self"
  show ?thesis
  proof (cases "current \<in> set (targets st)")
    case True
    with assms Cons e have "targets st' = removeAll current (targets st)"
      by (auto simp: bfs_step_def expand_def split: if_splits)
    moreover have "length (removeAll current (targets st)) < length (targets st)"
      using True by (rule length_removeAll_less)
    ultimately show ?thesis by (simp add: bfs_measure_def)
  next
    case False
    with assms Cons e have st': "st' = expand self current path (st\<lparr>queue := rest\<rparr>)"
      by (simp add: bfs_step_def)
    show ?thesis
    proof (cases "current \<in> set (visited st)")
      case True
      with st' have eq: "st' = st\<lparr>queue := rest\<rparr>" by (simp add: expand_def)
      have "(?U \<union> fst ` set rest) - set (visited st)
              \<subseteq> (?U \<union> fst ` set (queue st)) - set (visited st)"
        using Cons by auto
      moreover have "finite ((?U \<union> fst ` set (queue st)) - set (visited st))"
        by (simp add: universe_def del: set_append set_concat)
      ultimately have "card ((?U \<union> fst ` set rest) - set (visited st))
              \<le> card ((?U \<union> fst ` set (queue st)) - set (visited st))"
        by (rule card_mono [rotated])
      with eq Cons show ?thesis by (auto simp: bfs_measure_def)
    next
      case nv: False
      let ?new = "forward_edges self (current # visited st) current path
                    @ backward_edges self (current # visited st) current path"
      from nv st' have q': "queue st' = rest @ ?new" and v': "visited st' = current # visited st"
        and t': "targets st' = targets st"
        by (simp_all add: expand_def)
      have sub: "fst ` set ?new \<subseteq> ?U"
        using fst_forward_edges fst_backward_edges by (simp add: image_Un)
      have "(?U \<union> fst ` set (queue st')) - set (visited st')
              \<subset> (?U \<union> fst ` set (queue st)) - set (visited st)"
      proof
        show "(?U \<union> fst ` set (queue st')) - set (visited st')
                \<subseteq> (?U \<union> fst ` set (queue st)) - set (visited st)"
          using sub Cons by (auto simp: q' v' image_Un)
        have "current \<in> (?U \<union> fst ` set (queue st)) - set (visited st)"
          using nv Cons e by (auto intro: rev_image_eqI)
        moreover have "current \<notin> (?U \<union> fst ` set (queue st')) - set (visited st')"
          by (simp add: v')
        ultimately show "(?U \<union> fst ` set (queue st')) - set (visited st')
                \<noteq> (?U \<union> fst ` set (queue st)) - set (visited st)"
          by blast
      qed
      moreover have "finite ((?U \<union> fst ` set (queue st)) - set (visited st))"
        by (simp add: universe_def del: set_append set_concat)
      ultimately have "card ((?U \<union> fst ` set (queue st')) - set (visited st'))
              < card ((?U \<union> fst ` set (queue st)) - set (visited st))"
        by (rule psubset_card_mono [rotated])
      with t' show ?thesis by (simp add: bfs_measure_def)
    qed
  qed
qed

function bfs_loop :: "DatabaseSchema \<Rightarrow> bfs_state \<Rightarrow> join_step list option" where
  "bfs_loop self st =
     (case bfs_step self st of Return r \<Rightarrow> r | Continue st' \<Rightarrow> bfs_loop self st')"
  by pat_completeness auto
termination
proof (relation "inv_image (less_than <*lex*> less_than <*lex*> less_than) bfs_measure")
  show "wf (inv_image (less_than <*lex*> less_than <*lex*> less_than) bfs_measure)"
    by (intro wf_inv_image wf_lex_prod wf_less_than)
next
  fix self st st'
  assume "bfs_step self st = Continue st'"
  then show "((self, st'), (self, st))
         \<in> inv_image (less_than <*lex*> less_than <*lex*> less_than) bfs_measure"
    using bfs_step_decreases by (simp add: inv_image_def)
qed

definition find_join_path :: "DatabaseSchema \<Rightarrow> string list \<Rightarrow> join_step list option" where
  "find_join_path self ts =
     (if length ts < 2 then None
      else bfs_loop self \<lparr>queue = [(hd ts, [])], visited = [], targets = remdups (tl ts)\<rparr>)"

text \<open>
  The same loop with a bound on the number of iterations: \<open>None\<close> when the bound is
  reached before the loop has returned, \<open>Some r\<close> when it has returned \<open>r\<close>.
\<close>

fun bfs_within :: "nat \<Rightarrow> DatabaseSchema \<Rightarrow> bfs_state \<Rightarrow> join_step list option option" where
  "bfs_within 0 self st = None"
| "bfs_within (Suc n) self st =
     (case bfs_step self st of Return r \<Rightarrow> Some r | Continue st' \<Rightarrow> bfs_within n self st')"

definition find_join_path_within ::
  "nat \<Rightarrow> DatabaseSchema \<Rightarrow> string list \<Rightarrow> join_step list option option" where
  "find_join_path_within n self ts =
     (if length ts < 2 then Some None
      else bfs_within n self \<lparr>queue = [(hd ts, [])], visited = [], targets = remdups (tl ts)\<rparr>)"

section \<open>Introspection of an SQLite database\<close>

text \<open>
  The driver call \<open>self.conn.execute(sql)\<close> with the rows read from its cursor is the
  parameter \<open>execute\<close>: it acts on the state of the connection and either raises (the
  message is given) or yields the rows. A row is a list of cells, and \<open>r[i]\<close> raises
  an \<open>IndexError\<close> on a row that is too short: \<open>nth_opt\<close> is \<open>None\<close> there.
\<close>

type_synonym row = "string list"













section \<open>Term discovery and the drafted query\<close>

fun str_join :: "string \<Rightarrow> string list \<Rightarrow> string" where
  "str_join sep [] = []"
| "str_join sep [x] = x"
| "str_join sep (x # y # ys) = x @ sep @ str_join sep (y # ys)"






text \<open>
  The drafted query, \<open>sql_preview\<close>, from the dialect \<open>d\<close>, the tables to join and the
  discovered tables and columns (sets in the source, given here in the order in which they
  are iterated). \<open>elif join_path\<close> is false for \<open>None\<close> and for an empty plan. The
  source computes the draft only when some table was discovered, so that
  \<open>tables_to_join\<close> is not empty.
\<close>

definition sql_preview ::
  "SQLDialect \<Rightarrow> DatabaseSchema \<Rightarrow> string list \<Rightarrow> string list \<Rightarrow> (string \<times> string list) list \<Rightarrow>
     string" where
  "sql_preview d schema tables_to_join discovered_tables discovered_columns =
     (let join_path =
            (if length tables_to_join > 1 then find_join_path schema tables_to_join else None);
          unable = ''-- Unable to determine relationships'' @ [CHR 0x0A] @ ''-- Tables: '' @
                   str_join '', '' tables_to_join
      in if length tables_to_join = 1 then
           render_select d None @ [CHR 0x0A] @ ''  *'' @ [CHR 0x0A] @ ''FROM '' @
           q (hd tables_to_join) d @ [CHR 0x0A] @ render_limit d 10
         else
           (case join_path of
              None \<Rightarrow> unable
            | Some steps \<Rightarrow>
                if steps = [] then unable
                else
                  let found = concat (map (\<lambda>t.
                        map (\<lambda>c. q t d @ ''.'' @ q c d)
                            (case map_of discovered_columns t of None \<Rightarrow> [] | Some cs \<Rightarrow> cs))
                        discovered_tables);
                      select_parts = (if found = [] then [''*''] else found)
                  in render_select d (if d = SQLSERVER then Some 10 else None) @
                     [CHR 0x0A] @ ''  '' @
                     str_join ('','' @ [CHR 0x0A] @ ''  '') select_parts @
                     [CHR 0x0A] @ ''FROM '' @ q (hd tables_to_join) d @ [CHR 0x0A] @
                     concat (map (\<lambda>(left_tab, right_tab, left_col, right_col).
                        ''JOIN '' @ q right_tab d @ '' ON '' @
                        q left_tab d @ ''.'' @ q left_col d @ '' = '' @
                        q right_tab d @ ''.'' @ q right_col d @ [CHR 0x0A]) steps) @
                     render_limit d 10))"

section \<open>Notions used in the statements\<close>

text \<open>
  \<open>contains_word w s\<close>: the text \<open>s\<close> holds \<open>w\<close>, in any letter case, as a whole word:
  an occurrence with no word character right before it and none right behind it.
\<close>

definition contains_word :: "string \<Rightarrow> string \<Rightarrow> bool" where
  "contains_word w s =
     (\<exists>pre mid post. s = pre @ mid @ post \<and> str_lower mid = str_lower w \<and>
        (pre = [] \<or> \<not> is_word_char (last pre)) \<and> (post = [] \<or> \<not> is_word_char (hd post)))"

text \<open>
  A join step is a real edge when the relationships of its left table hold it as it is, or
  those of its right table hold it the other way round.
\<close>

definition valid_step :: "DatabaseSchema \<Rightarrow> join_step \<Rightarrow> bool" where
  "valid_step self s =
     (case s of (left_table, right_table, left_column, right_column) \<Rightarrow>
        (right_table, left_column, right_column) \<in> set (rel_get self left_table) \<or>
        (left_table, right_column, left_column) \<in> set (rel_get self right_table))"

text \<open>
  Two tables are linked when one has a foreign key to the other, and connected when a
  chain of links leads from one to the other.
\<close>

definition linked :: "DatabaseSchema \<Rightarrow> (string \<times> string) set" where
  "linked self = {(a, b). b \<in> fst ` set (rel_get self a) \<or> a \<in> fst ` set (rel_get self b)}"

definition connected :: "DatabaseSchema \<Rightarrow> string \<Rightarrow> string \<Rightarrow> bool" where
  "connected self a b = ((a, b) \<in> (linked self)\<^sup>*)"

text \<open>The two invariants of the search loop used below.\<close>

definition paths_valid :: "DatabaseSchema \<Rightarrow> bfs_state \<Rightarrow> bool" where
  "paths_valid self st = (\<forall>(c, p)\<in>set (queue st). \<forall>s\<in>set p. valid_step self s)"

definition reach_inv :: "DatabaseSchema \<Rightarrow> string \<Rightarrow> string list \<Rightarrow> bfs_state \<Rightarrow> bool" where
  "reach_inv self start goals st =
     ((\<forall>(c, p)\<in>set (queue st). connected self start c) \<and>
      (\<forall>t\<in>set goals. t \<in> set (targets st) \<or> connected self start t))"





section \<open>Sample data\<close>

text \<open>
  A driver that answers every query with a one-row table and records the statement in the
  state of the connection, an engine connected through it, and an engine without a
  connection.
\<close>

definition logging_driver :: "string \<Rightarrow> string list \<Rightarrow> (string + dataframe) \<times> string list" where
  "logging_driver sql log = (Inr \<lparr>df_columns = [''n''], df_rows = [[''1'']]\<rparr>, log @ [sql])"

definition live_engine :: "string list DatabaseEngine" where
  "live_engine = \<lparr>conn = Some [], dialect = SQLITE, engine_name = ''SQLite'', schema_cache = None\<rparr>"

definition offline_engine :: "string list DatabaseEngine" where
  "offline_engine = \<lparr>conn = None, dialect = SQLITE, engine_name = ''SQLite'', schema_cache = None\<rparr>"

text \<open>The model of scenario 1, a cyclic model with a table apart, and two unrelated tables.\<close>

definition scenario1 :: DatabaseSchema where
  "scenario1 = \<lparr>tables = [''Orders'', ''Customers''], columns = [],
     relationships = [(''Orders'', [(''Customers'', ''CustomerID'', ''CustomerID'')])]\<rparr>"

definition cyclic_schema :: DatabaseSchema where
  "cyclic_schema = \<lparr>tables = [''A'', ''B'', ''C'', ''D''], columns = [],
     relationships = [(''A'', [(''B'', ''b'', ''id'')]), (''B'', [(''C'', ''c'', ''id'')]),
                      (''C'', [(''A'', ''a'', ''id'')])]\<rparr>"

definition islands :: DatabaseSchema where
  "islands = \<lparr>tables = [''A'', ''B''], columns = [], relationships = []\<rparr>"






section \<open>Lemmas on strings and the gate\<close>

lemma is_word_char_lower: "is_word_char (lower_char c) = is_word_char c"
proof -
  have "(of_char c :: nat) < 256" by simp
  then show ?thesis
    unfolding is_word_char_def lower_char_def Let_def
    by (auto simp: of_char_of)
qed

lemma str_lower_word_chars:
  assumes "str_lower mid = str_lower w" and "\<forall>k\<in>set w. is_word_char k" and "c \<in> set mid"
  shows "is_word_char c"
proof -
  have "lower_char c \<in> set (str_lower mid)" using assms(3) by (simp add: str_lower_def)
  then have "lower_char c \<in> set (str_lower w)" using assms(1) by simp
  then have "lower_char c \<in> lower_char ` set w" by (simp add: str_lower_def)
  then obtain k where "k \<in> set w" "lower_char c = lower_char k" by auto
  then show ?thesis using assms(2) is_word_char_lower [of c] is_word_char_lower [of k] by simp
qed

lemma match_at_iff:
  "match_at prev w s \<longleftrightarrow>
     (\<exists>mid post. s = mid @ post \<and> str_lower mid = str_lower w \<and>
        boundary prev (hd_opt (mid @ post)) \<and> boundary (last_opt prev mid) (hd_opt post))"
  (is "?L \<longleftrightarrow> ?R")
proof
  assume ?L
  then have "s = take (length w) s @ drop (length w) s \<and>
      str_lower (take (length w) s) = str_lower w \<and>
      boundary prev (hd_opt (take (length w) s @ drop (length w) s)) \<and>
      boundary (last_opt prev (take (length w) s)) (hd_opt (drop (length w) s))"
    by (simp add: match_at_def)
  then show ?R by blast
next
  assume ?R
  then obtain mid post where h: "s = mid @ post" "str_lower mid = str_lower w"
      "boundary prev (hd_opt (mid @ post))" "boundary (last_opt prev mid) (hd_opt post)"
    by blast
  from h(2) have "length mid = length w"
    unfolding str_lower_def by (rule map_eq_imp_length_eq)
  with h show ?L by (simp add: match_at_def)
qed

lemma search_from_iff:
  "search_from prev w s \<longleftrightarrow>
     (\<exists>pre mid post. s = pre @ mid @ post \<and> str_lower mid = str_lower w \<and>
        boundary (last_opt prev pre) (hd_opt (mid @ post)) \<and>
        boundary (last_opt (last_opt prev pre) mid) (hd_opt post))"
proof (induction s arbitrary: prev)
  case Nil
  show ?case by (simp add: match_at_iff last_opt_def)
next
  case (Cons c cs)
  have here: "match_at prev w (c # cs) \<longleftrightarrow>
     (\<exists>pre mid post. pre = [] \<and> c # cs = pre @ mid @ post \<and> str_lower mid = str_lower w \<and>
        boundary (last_opt prev pre) (hd_opt (mid @ post)) \<and>
        boundary (last_opt (last_opt prev pre) mid) (hd_opt post))"
    by (simp add: match_at_iff last_opt_def)
  have later: "search_from (Some c) w cs \<longleftrightarrow>
     (\<exists>pre mid post. pre \<noteq> [] \<and> c # cs = pre @ mid @ post \<and> str_lower mid = str_lower w \<and>
        boundary (last_opt prev pre) (hd_opt (mid @ post)) \<and>
        boundary (last_opt (last_opt prev pre) mid) (hd_opt post))"
    (is "_ \<longleftrightarrow> ?R")
  proof
    assume "search_from (Some c) w cs"
    then obtain pre mid post where h: "cs = pre @ mid @ post" "str_lower mid = str_lower w"
        "boundary (last_opt (Some c) pre) (hd_opt (mid @ post))"
        "boundary (last_opt (last_opt (Some c) pre) mid) (hd_opt post)"
      unfolding Cons.IH by blast
    have "last_opt prev (c # pre) = last_opt (Some c) pre" by (simp add: last_opt_def)
    with h have "c # pre \<noteq> [] \<and> c # cs = (c # pre) @ mid @ post \<and> str_lower mid = str_lower w \<and>
        boundary (last_opt prev (c # pre)) (hd_opt (mid @ post)) \<and>
        boundary (last_opt (last_opt prev (c # pre)) mid) (hd_opt post)"
      by simp
    then show ?R by blast
  next
    assume ?R
    then obtain pre mid post where h: "pre \<noteq> []" "c # cs = pre @ mid @ post"
        "str_lower mid = str_lower w"
        "boundary (last_opt prev pre) (hd_opt (mid @ post))"
        "boundary (last_opt (last_opt prev pre) mid) (hd_opt post)"
      by blast
    from h(1,2) obtain pre' where p: "pre = c # pre'" by (cases pre) auto
    have "last_opt prev (c # pre') = last_opt (Some c) pre'" by (simp add: last_opt_def)
    with h p have "cs = pre' @ mid @ post \<and> str_lower mid = str_lower w \<and>
        boundary (last_opt (Some c) pre') (hd_opt (mid @ post)) \<and>
        boundary (last_opt (last_opt (Some c) pre') mid) (hd_opt post)"
      by simp
    then show "search_from (Some c) w cs" unfolding Cons.IH by blast
  qed
  show ?case unfolding search_from.simps here later by blast
qed

lemma re_search_word_iff:
  assumes "w \<noteq> []" and "\<forall>k\<in>set w. is_word_char k"
  shows "re_search_word w s \<longleftrightarrow> contains_word w s"
proof -
  have key: "(boundary (last_opt None pre) (hd_opt (mid @ post)) \<and>
              boundary (last_opt (last_opt None pre) mid) (hd_opt post)) \<longleftrightarrow>
             ((pre = [] \<or> \<not> is_word_char (last pre)) \<and> (post = [] \<or> \<not> is_word_char (hd post)))"
    if m: "str_lower mid = str_lower w" for pre mid post
  proof -
    from m have "length mid = length w" unfolding str_lower_def by (rule map_eq_imp_length_eq)
    with assms(1) have ne: "mid \<noteq> []" by auto
    then have "hd mid \<in> set mid" "last mid \<in> set mid" by simp_all
    then have w: "is_word_char (hd mid)" "is_word_char (last mid)"
      using str_lower_word_chars [OF m assms(2)] by blast+
    from ne obtain x xs where "mid = x # xs" by (cases mid) auto
    with w show ?thesis
      by (cases post) (auto simp: boundary_def last_opt_def hd_opt_def)
  qed
  show ?thesis
    unfolding re_search_word_def search_from_iff contains_word_def
    using key by blast
qed


lemma set_strip_line_comments: "set (strip_line_comments s) \<subseteq> set s"
proof (induction s rule: strip_line_comments.induct)
  case (3 c d cs)
  show ?case
  proof (cases "c = CHR ''-'' \<and> d = CHR ''-''")
    case True
    with 3 have "set (strip_line_comments (c # d # cs)) \<subseteq> set (dropWhile (\<lambda>x. x \<noteq> CHR 0x0A) cs)"
      by simp
    also have "\<dots> \<subseteq> set cs" by (auto dest: set_dropWhileD)
    finally show ?thesis by auto
  next
    case False
    with 3 show ?thesis by auto
  qed
qed simp_all

lemma set_find_close: "find_close s = Some r \<Longrightarrow> set r \<subseteq> set s"
  by (induction s arbitrary: r rule: find_close.induct) (auto split: if_splits)

lemma set_strip_block_comments: "set (strip_block_comments s) \<subseteq> set s"
proof (induction s rule: strip_block_comments.induct)
  case (3 c d cs)
  show ?case
  proof (cases "c = CHR ''/'' \<and> d = CHR ''*''")
    case True
    show ?thesis
    proof (cases "find_close cs")
      case None
      with True 3 show ?thesis by auto
    next
      case (Some r)
      with True 3 have "set (strip_block_comments (c # d # cs)) \<subseteq> set r" by simp
      also have "\<dots> \<subseteq> set cs" using Some by (rule set_find_close)
      finally show ?thesis by auto
    qed
  next
    case False
    with 3 show ?thesis by auto
  qed
qed simp_all

lemma set_str_strip: "set (str_strip s) \<subseteq> set s"
proof
  fix x assume "x \<in> set (str_strip s)"
  then have "x \<in> set (dropWhile isspace (rev (dropWhile isspace s)))"
    by (simp add: str_strip_def)
  then have "x \<in> set (rev (dropWhile isspace s))" by (rule set_dropWhileD)
  then have "x \<in> set (dropWhile isspace s)" by simp
  then show "x \<in> set s" by (rule set_dropWhileD)
qed

lemma str_strip_all_space: "\<forall>c\<in>set s. isspace c \<Longrightarrow> str_strip s = []"
proof -
  assume "\<forall>c\<in>set s. isspace c"
  then have d: "dropWhile isspace s = []" by (induction s) simp_all
  show ?thesis unfolding str_strip_def d by simp
qed

lemma str_strip_keeps:
  assumes "c \<in> set s" and "\<not> isspace c"
  shows "c \<in> set (str_strip s)"
proof -
  have keep: "c \<in> set (dropWhile isspace xs)" if "c \<in> set xs" for xs
    using that assms(2) by (induction xs) auto
  show ?thesis unfolding str_strip_def using keep [of "rev (dropWhile isspace s)"] keep [OF assms(1)]
    by simp
qed

lemma str_strip_Nil_iff: "str_strip s = [] \<longleftrightarrow> (\<forall>c\<in>set s. isspace c)"
proof
  assume e: "str_strip s = []"
  show "\<forall>c\<in>set s. isspace c"
  proof (rule ccontr)
    assume "\<not> (\<forall>c\<in>set s. isspace c)"
    then obtain c where "c \<in> set s" "\<not> isspace c" by blast
    then have "c \<in> set (str_strip s)" by (rule str_strip_keeps)
    with e show False by simp
  qed
next
  assume "\<forall>c\<in>set s. isspace c"
  then show "str_strip s = []" by (rule str_strip_all_space)
qed

lemma set_strip_sql_comments: "set (strip_sql_comments s) \<subseteq> set s"
  unfolding strip_sql_comments_def
  using set_str_strip set_strip_block_comments set_strip_line_comments by blast

lemma cleaned_nonempty:
  assumes "strip_sql_comments sql \<noteq> []"
  shows "str_strip sql \<noteq> []"
proof
  assume "str_strip sql = []"
  then have a: "\<forall>c\<in>set sql. isspace c" by (simp add: str_strip_Nil_iff)
  have "set (strip_block_comments (strip_line_comments sql)) \<subseteq> set sql"
    using set_strip_block_comments set_strip_line_comments by blast
  with a have "\<forall>c\<in>set (strip_block_comments (strip_line_comments sql)). isspace c" by blast
  then have "strip_sql_comments sql = []"
    unfolding strip_sql_comments_def by (rule str_strip_all_space)
  with assms show False by simp
qed

lemma execute_select_multi:
  assumes "conn self = Some c"
    and "CHR '';'' \<in> set (str_rstrip CHR '';'' (strip_sql_comments sql))"
  shows "execute_select rsq self sql =
           (\<lparr>status = ''warning'', df = None,
             message = ''Multiple SQL statements detected. Only single SELECT statements are allowed.''\<rparr>,
            self)"
proof -
  from assms(2) have "strip_sql_comments sql \<noteq> []" by (auto simp: str_rstrip_def)
  then have "str_strip sql \<noteq> []" by (rule cleaned_nonempty)
  with assms show ?thesis by (simp add: execute_select_def)
qed

lemma dangerous_words: "w \<in> set dangerous \<Longrightarrow> w \<noteq> [] \<and> (\<forall>k\<in>set w. is_word_char k)"
  by (auto simp: dangerous_def is_word_char_def)

lemma contains_dangerous_sql_Some:
  assumes "kw \<in> set dangerous" and "contains_word kw s"
  shows "\<exists>w\<in>set dangerous. contains_word w s \<and> contains_dangerous_sql s = Some w"
proof -
  from assms have "re_search_word kw s"
    using dangerous_words [of kw] by (simp add: re_search_word_iff)
  with assms(1) obtain w where w: "contains_dangerous_sql s = Some w"
    unfolding contains_dangerous_sql_def by (cases "find (\<lambda>word. re_search_word word s) dangerous")
      (auto simp: find_None_iff)
  then have "w \<in> set dangerous" "re_search_word w s"
    unfolding contains_dangerous_sql_def by (auto simp: find_Some_iff)
  then show ?thesis using w dangerous_words [of w] by (auto simp: re_search_word_iff)
qed

lemma contains_word_nonempty: "w \<noteq> [] \<Longrightarrow> contains_word w s \<Longrightarrow> s \<noteq> []"
  by (auto simp: contains_word_def str_lower_def)

section \<open>Lemmas on the search loop\<close>

lemma bfs_loop_Return: "bfs_step self st = Return r \<Longrightarrow> bfs_loop self st = r"
  by (subst bfs_loop.simps) simp

lemma bfs_loop_Continue: "bfs_step self st = Continue st' \<Longrightarrow> bfs_loop self st = bfs_loop self st'"
  by (subst bfs_loop.simps) simp

lemma bfs_loop_invariant:
  assumes "I st"
    and "\<And>s s'. I s \<Longrightarrow> bfs_step self s = Continue s' \<Longrightarrow> I s'"
  shows "\<exists>s. I s \<and> bfs_step self s = Return (bfs_loop self st)"
  using assms
proof (induction self st rule: bfs_loop.induct)
  case (1 self st)
  show ?case
  proof (cases "bfs_step self st")
    case (Return r)
    then have "bfs_loop self st = r" by (rule bfs_loop_Return)
    with Return "1.prems"(1) show ?thesis by auto
  next
    case (Continue st')
    then have e: "bfs_loop self st = bfs_loop self st'" by (rule bfs_loop_Continue)
    have "I st'" using "1.prems"(1) Continue by (rule "1.prems"(2))
    have "\<exists>s. I s \<and> bfs_step self s = Return (bfs_loop self st')"
    proof (rule "1.IH" [OF Continue])
      show "I st'" by fact
    next
      fix s s' assume "I s" "bfs_step self s = Continue s'"
      then show "I s'" by (rule "1.prems"(2))
    qed
    then show ?thesis unfolding e .
  qed
qed

lemma bfs_within_enough: "\<exists>n. bfs_within n self st = Some (bfs_loop self st)"
proof (induction self st rule: bfs_loop.induct)
  case (1 self st)
  show ?case
  proof (cases "bfs_step self st")
    case (Return r)
    then have "bfs_within (Suc 0) self st = Some (bfs_loop self st)"
      by (simp add: bfs_loop_Return)
    then show ?thesis by blast
  next
    case (Continue st')
    from "1.IH" [OF Continue] obtain n where "bfs_within n self st' = Some (bfs_loop self st')"
      by blast
    with Continue have "bfs_within (Suc n) self st = Some (bfs_loop self st)"
      by (simp add: bfs_loop_Continue)
    then show ?thesis by blast
  qed
qed

lemma forward_edges_valid:
  assumes "\<forall>s\<in>set path. valid_step self s" and "(c, p) \<in> set (forward_edges self vis current path)"
  shows "\<forall>s\<in>set p. valid_step self s"
  using assms by (auto simp: forward_edges_def valid_step_def)

lemma backward_edges_valid:
  assumes "\<forall>s\<in>set path. valid_step self s" and "(c, p) \<in> set (backward_edges self vis current path)"
  shows "\<forall>s\<in>set p. valid_step self s"
  using assms by (auto simp: backward_edges_def valid_step_def split: if_splits)

lemma expand_valid:
  assumes "paths_valid self st" and "\<forall>s\<in>set path. valid_step self s"
  shows "paths_valid self (expand self current path st)"
proof (cases "current \<in> set (visited st)")
  case True
  with assms(1) show ?thesis by (simp add: expand_def)
next
  case False
  have "\<forall>s\<in>set p. valid_step self s"
    if "(c, p) \<in> set (queue (expand self current path st))" for c p
  proof -
    from that False have "(c, p) \<in> set (queue st) \<or>
        (c, p) \<in> set (forward_edges self (current # visited st) current path) \<or>
        (c, p) \<in> set (backward_edges self (current # visited st) current path)"
      by (auto simp: expand_def)
    then show ?thesis
      using assms(1) forward_edges_valid [OF assms(2)] backward_edges_valid [OF assms(2)]
      unfolding paths_valid_def by blast
  qed
  then show ?thesis unfolding paths_valid_def by blast
qed

lemma bfs_step_valid:
  assumes "paths_valid self st" and "bfs_step self st = Continue st'"
  shows "paths_valid self st'"
proof (cases "queue st")
  case Nil
  with assms show ?thesis by (simp add: bfs_step_def)
next
  case (Cons e rest)
  obtain current path where e: "e = (current, path)" by (cases e)
  from assms(1) Cons e have p: "\<forall>s\<in>set path. valid_step self s"
    by (simp add: paths_valid_def)
  from assms(1) Cons have r: "paths_valid self (st\<lparr>queue := rest\<rparr>)"
    by (simp add: paths_valid_def)
  from p have o: "paths_valid self \<lparr>queue = [(current, path)], visited = [],
                      targets = removeAll current (targets st)\<rparr>"
    by (simp add: paths_valid_def)
  show ?thesis
  proof (cases "current \<in> set (targets st)")
    case True
    with assms(2) Cons e have "st' = expand self current path \<lparr>queue = [(current, path)],
        visited = [], targets = removeAll current (targets st)\<rparr>"
      by (simp add: bfs_step_def split: if_splits)
    then show ?thesis using expand_valid [OF o p] by simp
  next
    case False
    with assms(2) Cons e have "st' = expand self current path (st\<lparr>queue := rest\<rparr>)"
      by (simp add: bfs_step_def)
    then show ?thesis using expand_valid [OF r p] by simp
  qed
qed

lemma bfs_loop_valid:
  assumes "paths_valid self st" and "bfs_loop self st = Some plan"
  shows "\<forall>s\<in>set plan. valid_step self s"
proof -
  have "\<exists>s. paths_valid self s \<and> bfs_step self s = Return (bfs_loop self st)"
    using assms(1) bfs_step_valid by (rule bfs_loop_invariant)
  then obtain s where s: "paths_valid self s" "bfs_step self s = Return (Some plan)"
    using assms(2) by auto
  show ?thesis
  proof (cases "queue s")
    case Nil
    with s(2) show ?thesis by (simp add: bfs_step_def)
  next
    case (Cons e rest)
    obtain current path where e: "e = (current, path)" by (cases e)
    from s(2) Cons e have "plan = path" by (simp add: bfs_step_def split: if_splits)
    with s(1) Cons e show ?thesis by (simp add: paths_valid_def)
  qed
qed


lemma forward_edges_linked:
  "(c, p) \<in> set (forward_edges self vis current path) \<Longrightarrow> (current, c) \<in> linked self"
  by (auto simp: forward_edges_def linked_def intro: rev_image_eqI)

lemma backward_edges_linked:
  "(c, p) \<in> set (backward_edges self vis current path) \<Longrightarrow> (current, c) \<in> linked self"
  by (auto simp: backward_edges_def linked_def split: if_splits intro: rev_image_eqI)

lemma expand_connected:
  assumes "\<forall>(c, p)\<in>set (queue st). connected self start c" and "connected self start current"
  shows "\<forall>(c, p)\<in>set (queue (expand self current path st)). connected self start c"
proof (cases "current \<in> set (visited st)")
  case True
  with assms(1) show ?thesis by (simp add: expand_def)
next
  case False
  have "connected self start c" if "(c, p) \<in> set (queue (expand self current path st))" for c p
  proof -
    from that False have "(c, p) \<in> set (queue st) \<or>
        (c, p) \<in> set (forward_edges self (current # visited st) current path) \<or>
        (c, p) \<in> set (backward_edges self (current # visited st) current path)"
      by (auto simp: expand_def)
    then consider "(c, p) \<in> set (queue st)" | "(current, c) \<in> linked self"
      using forward_edges_linked backward_edges_linked by blast
    then show ?thesis
    proof cases
      case 1
      with assms(1) show ?thesis by blast
    next
      case 2
      with assms(2) show ?thesis unfolding connected_def by (rule rtrancl_into_rtrancl)
    qed
  qed
  then show ?thesis by blast
qed

lemma bfs_step_reach:
  assumes "reach_inv self start goals st" and "bfs_step self st = Continue st'"
  shows "reach_inv self start goals st'"
proof (cases "queue st")
  case Nil
  with assms show ?thesis by (simp add: bfs_step_def)
next
  case (Cons e rest)
  obtain current path where e: "e = (current, path)" by (cases e)
  from assms(1) Cons e have cur: "connected self start current"
    by (simp add: reach_inv_def)
  from assms(1) Cons have r: "\<forall>(c, p)\<in>set (queue (st\<lparr>queue := rest\<rparr>)). connected self start c"
    by (simp add: reach_inv_def)
  from cur have o: "\<forall>(c, p)\<in>set (queue \<lparr>queue = [(current, path)], visited = [],
      targets = removeAll current (targets st)\<rparr>). connected self start c"
    by simp
  have tg: "targets (expand self current path s) = targets s" for s
    by (simp add: expand_def)
  show ?thesis
  proof (cases "current \<in> set (targets st)")
    case True
    with assms(2) Cons e have st': "st' = expand self current path \<lparr>queue = [(current, path)],
        visited = [], targets = removeAll current (targets st)\<rparr>"
      by (simp add: bfs_step_def split: if_splits)
    have "\<forall>t\<in>set goals. t \<in> set (targets st') \<or> connected self start t"
    proof
      fix t assume "t \<in> set goals"
      with assms(1) have "t \<in> set (targets st) \<or> connected self start t"
        by (simp add: reach_inv_def)
      then show "t \<in> set (targets st') \<or> connected self start t"
        using cur by (cases "t = current") (auto simp: st' tg)
    qed
    then show ?thesis using expand_connected [OF o cur] by (simp add: reach_inv_def st')
  next
    case False
    with assms(2) Cons e have st': "st' = expand self current path (st\<lparr>queue := rest\<rparr>)"
      by (simp add: bfs_step_def)
    from assms(1) have "\<forall>t\<in>set goals. t \<in> set (targets st') \<or> connected self start t"
      by (simp add: reach_inv_def st' tg)
    then show ?thesis using expand_connected [OF r cur] by (simp add: reach_inv_def st')
  qed
qed

lemma find_join_path_connected:
  assumes "find_join_path self ts = Some plan" and "t \<in> set (tl ts)"
  shows "connected self (hd ts) t"
proof -
  let ?st = "\<lparr>queue = [(hd ts, [])], visited = [], targets = remdups (tl ts)\<rparr>"
  from assms(1) have l: "bfs_loop self ?st = Some plan"
    by (simp add: find_join_path_def split: if_splits)
  have "reach_inv self (hd ts) (tl ts) ?st"
    by (simp add: reach_inv_def connected_def)
  then have "\<exists>s. reach_inv self (hd ts) (tl ts) s \<and> bfs_step self s = Return (bfs_loop self ?st)"
    using bfs_step_reach by (rule bfs_loop_invariant)
  then obtain s where s: "reach_inv self (hd ts) (tl ts) s" "bfs_step self s = Return (Some plan)"
    using l by auto
  show ?thesis
  proof (cases "queue s")
    case Nil
    with s(2) show ?thesis by (simp add: bfs_step_def)
  next
    case (Cons e rest)
    obtain current path where e: "e = (current, path)" by (cases e)
    from s(2) Cons e have c: "current \<in> set (targets s)" "removeAll current (targets s) = []"
      by (auto simp: bfs_step_def split: if_splits)
    from s(1) Cons e have cur: "connected self (hd ts) current" by (simp add: reach_inv_def)
    from s(1) assms(2) have "t \<in> set (targets s) \<or> connected self (hd ts) t"
      by (simp add: reach_inv_def)
    then show ?thesis
    proof
      assume "t \<in> set (targets s)"
      then have "t = current" using c(2) set_removeAll [of current "targets s"] by auto
      with cur show ?thesis by simp
    qed
  qed
qed

lemma bfs_loop_empty_queue: "queue st = [] \<Longrightarrow> bfs_loop self st = None"
  by (rule bfs_loop_Return) (simp add: bfs_step_def)

lemma singleton_list: "distinct xs \<Longrightarrow> set xs = {a} \<Longrightarrow> xs = [a]"
proof (cases xs)
  case Nil
  assume "set xs = {a}"
  with Nil show ?thesis by simp
next
  case (Cons x ys)
  assume d: "distinct xs" and s: "set xs = {a}"
  from s Cons have xa: "x = a" and sub: "\<forall>y\<in>set ys. y = a" by auto
  from d Cons have nx: "x \<notin> set ys" by simp
  have "ys = []"
  proof (cases ys)
    case (Cons y zs)
    then have "y \<in> set ys" by simp
    with sub have "y = a" by simp
    with xa nx \<open>y \<in> set ys\<close> show ?thesis by simp
  qed simp
  with Cons xa show ?thesis by simp
qed

section \<open>The claims\<close>

text \<open>
  C1, as stated, fails. The statement \<open>SELECT 1/**/DROP/**/2\<close> holds the keyword
  \<open>DROP\<close> as a whole word between two comments, and \<open>SELECT 1 -- drop\<close> holds it in
  a comment; on a connected engine both pass the gate and reach the driver, which records
  them in the state of the connection.
\<close>

theorem gate_keyword_counterexample:
  "''DROP'' \<in> set dangerous \<and>
   contains_word ''DROP'' ''SELECT 1/**/DROP/**/2'' \<and>
   execute_select logging_driver live_engine ''SELECT 1/**/DROP/**/2'' =
     (\<lparr>status = ''success'', df = Some \<lparr>df_columns = [''n''], df_rows = [[''1'']]\<rparr>,
       message = ''Query executed successfully. Returned 1 row(s).''\<rparr>,
      live_engine\<lparr>conn := Some [''SELECT 1DROP2'']\<rparr>) \<and>
   contains_word ''DROP'' ''SELECT 1 -- drop'' \<and>
   execute_select logging_driver live_engine ''SELECT 1 -- drop'' =
     (\<lparr>status = ''success'', df = Some \<lparr>df_columns = [''n''], df_rows = [[''1'']]\<rparr>,
       message = ''Query executed successfully. Returned 1 row(s).''\<rparr>,
      live_engine\<lparr>conn := Some [''SELECT 1'']\<rparr>)"
proof -
  have d: "''DROP'' \<in> set dangerous" by (simp add: dangerous_def)
  have w: "''DROP'' \<noteq> [] \<and> (\<forall>k\<in>set ''DROP''. is_word_char k)"
    using d by (rule dangerous_words)
  have "re_search_word ''DROP'' ''SELECT 1/**/DROP/**/2''" by code_simp
  then have a: "contains_word ''DROP'' ''SELECT 1/**/DROP/**/2''"
    using w by (simp add: re_search_word_iff)
  have "re_search_word ''DROP'' ''SELECT 1 -- drop''" by code_simp
  then have b: "contains_word ''DROP'' ''SELECT 1 -- drop''"
    using w by (simp add: re_search_word_iff)
  have e1: "execute_select logging_driver live_engine ''SELECT 1/**/DROP/**/2'' =
     (\<lparr>status = ''success'', df = Some \<lparr>df_columns = [''n''], df_rows = [[''1'']]\<rparr>,
       message = ''Query executed successfully. Returned 1 row(s).''\<rparr>,
      live_engine\<lparr>conn := Some [''SELECT 1DROP2'']\<rparr>)"
    by code_simp
  have e2: "execute_select logging_driver live_engine ''SELECT 1 -- drop'' =
     (\<lparr>status = ''success'', df = Some \<lparr>df_columns = [''n''], df_rows = [[''1'']]\<rparr>,
       message = ''Query executed successfully. Returned 1 row(s).''\<rparr>,
      live_engine\<lparr>conn := Some [''SELECT 1'']\<rparr>)"
    by code_simp
  from d a b e1 e2 show ?thesis by blast
qed

text \<open>
  C1, amended. On an engine with a live connection, for every raw SQL string whose text
  after comment stripping holds a denylisted keyword as a whole word, in any letter case,
  \<open>execute_select\<close> returns a warning, without a table, and returns the engine as it was,
  whatever the driver does: the statement is not executed. When a semicolon is left behind
  the trailing ones the warning is the multi-statement one; otherwise the keyword check
  fires and the warning names a denylisted keyword that the stripped text holds as a
  whole word.
\<close>

theorem gate_keyword:
  assumes "conn self = Some c" and "kw \<in> set dangerous"
    and "contains_word kw (strip_sql_comments sql)"
  shows "(CHR '';'' \<in> set (str_rstrip CHR '';'' (strip_sql_comments sql)) \<longrightarrow>
            execute_select read_sql_query self sql =
              (\<lparr>status = ''warning'', df = None,
                message = ''Multiple SQL statements detected. Only single SELECT statements are allowed.''\<rparr>,
               self)) \<and>
         (CHR '';'' \<notin> set (str_rstrip CHR '';'' (strip_sql_comments sql)) \<longrightarrow>
            (\<exists>w\<in>set dangerous. contains_word w (strip_sql_comments sql) \<and>
               execute_select read_sql_query self sql =
                 (\<lparr>status = ''warning'', df = None,
                   message = ''This query contains `'' @ w @
                             ''`. Execution is blocked to prevent data changes.''\<rparr>,
                  self)))"
proof (intro conjI impI)
  assume "CHR '';'' \<in> set (str_rstrip CHR '';'' (strip_sql_comments sql))"
  with assms(1) show "execute_select read_sql_query self sql =
              (\<lparr>status = ''warning'', df = None,
                message = ''Multiple SQL statements detected. Only single SELECT statements are allowed.''\<rparr>,
               self)"
    by (rule execute_select_multi)
next
  assume no: "CHR '';'' \<notin> set (str_rstrip CHR '';'' (strip_sql_comments sql))"
  from assms(2,3) obtain w where w: "w \<in> set dangerous" "contains_word w (strip_sql_comments sql)"
      "contains_dangerous_sql (strip_sql_comments sql) = Some w"
    using contains_dangerous_sql_Some by blast
  from assms(2,3) have "strip_sql_comments sql \<noteq> []"
    using contains_word_nonempty dangerous_words by blast
  then have "str_strip sql \<noteq> []" by (rule cleaned_nonempty)
  with assms(1) no w(3) have "execute_select read_sql_query self sql =
                 (\<lparr>status = ''warning'', df = None,
                   message = ''This query contains `'' @ w @
                             ''`. Execution is blocked to prevent data changes.''\<rparr>,
                  self)"
    by (simp add: execute_select_def)
  with w(1,2) show "\<exists>w\<in>set dangerous. contains_word w (strip_sql_comments sql) \<and>
               execute_select read_sql_query self sql =
                 (\<lparr>status = ''warning'', df = None,
                   message = ''This query contains `'' @ w @
                             ''`. Execution is blocked to prevent data changes.''\<rparr>,
                  self)"
    by blast
qed

text \<open>
  Witness for C1, amended: \<open>/* c */ dRoP TABLE t -- bye\<close> on the connected sample
  engine. No semicolon is left, so the keyword warning is returned and the log of the
  connection stays empty.
\<close>

theorem gate_keyword_witness:
  "conn live_engine = Some [] \<and> ''DROP'' \<in> set dangerous \<and>
   contains_word ''DROP'' (strip_sql_comments ''/* c */ dRoP TABLE t -- bye'') \<and>
   CHR '';'' \<notin> set (str_rstrip CHR '';'' (strip_sql_comments ''/* c */ dRoP TABLE t -- bye'')) \<and>
   (\<exists>w\<in>set dangerous.
      execute_select logging_driver live_engine ''/* c */ dRoP TABLE t -- bye'' =
        (\<lparr>status = ''warning'', df = None,
          message = ''This query contains `'' @ w @
                    ''`. Execution is blocked to prevent data changes.''\<rparr>,
         live_engine))"
proof -
  have c: "conn live_engine = Some []" by (simp add: live_engine_def)
  have d: "''DROP'' \<in> set dangerous" by (simp add: dangerous_def)
  have s: "strip_sql_comments ''/* c */ dRoP TABLE t -- bye'' = ''dRoP TABLE t''" by code_simp
  have "re_search_word ''DROP'' ''dRoP TABLE t''" by code_simp
  then have k: "contains_word ''DROP'' (strip_sql_comments ''/* c */ dRoP TABLE t -- bye'')"
    using dangerous_words [OF d] by (simp add: re_search_word_iff s)
  have n: "CHR '';'' \<notin> set (str_rstrip CHR '';'' (strip_sql_comments ''/* c */ dRoP TABLE t -- bye''))"
    unfolding s by code_simp
  from gate_keyword [OF c d k, of logging_driver] n c d k show ?thesis by blast
qed

text \<open>
  C2, as stated, fails. The statement \<open>SELECT * FROM t; DROP TABLE t;\<close> of scenario 2
  still holds a semicolon after comment stripping and the trimming of trailing semicolons,
  yet on an engine without a connection \<open>execute_select\<close> returns an error with the
  message \<open>Not connected to database\<close>, not a warning with a multi-statement reason: the
  test of the connection comes before every test of the text.
\<close>

theorem gate_multi_statement_counterexample:
  "conn offline_engine = None \<and>
   CHR '';'' \<in> set (str_rstrip CHR '';'' (strip_sql_comments ''SELECT * FROM t; DROP TABLE t;'')) \<and>
   execute_select logging_driver offline_engine ''SELECT * FROM t; DROP TABLE t;'' =
     (\<lparr>status = ''error'', df = None, message = ''Not connected to database''\<rparr>,
      offline_engine) \<and>
   status (fst (execute_select logging_driver offline_engine ''SELECT * FROM t; DROP TABLE t;''))
     \<noteq> ''warning''"
proof -
  have c: "conn offline_engine = None" by (simp add: offline_engine_def)
  have m: "CHR '';'' \<in> set (str_rstrip CHR '';'' (strip_sql_comments ''SELECT * FROM t; DROP TABLE t;''))"
    by code_simp
  have e: "execute_select logging_driver offline_engine ''SELECT * FROM t; DROP TABLE t;'' =
     (\<lparr>status = ''error'', df = None, message = ''Not connected to database''\<rparr>,
      offline_engine)"
    using c by (simp add: execute_select_def)
  from c m e show ?thesis by simp
qed

text \<open>
  C2, amended. On an engine with a live connection (the state in which the text is
  looked at), every raw SQL string that still holds a semicolon after comment stripping
  and the trimming of trailing semicolons gets the multi-statement warning, whatever the
  keyword scan and the prefix test would say; the statement
  \<open>SELECT * FROM t; DROP TABLE t;\<close> of scenario 2, which also holds a denylisted keyword,
  gets it as well.
\<close>

theorem gate_multi_statement:
  "(conn self = Some c \<and>
    CHR '';'' \<in> set (str_rstrip CHR '';'' (strip_sql_comments sql)) \<longrightarrow>
      execute_select read_sql_query self sql =
        (\<lparr>status = ''warning'', df = None,
          message = ''Multiple SQL statements detected. Only single SELECT statements are allowed.''\<rparr>,
         self)) \<and>
   contains_dangerous_sql (strip_sql_comments ''SELECT * FROM t; DROP TABLE t;'') = Some ''DROP'' \<and>
   execute_select logging_driver live_engine ''SELECT * FROM t; DROP TABLE t;'' =
     (\<lparr>status = ''warning'', df = None,
       message = ''Multiple SQL statements detected. Only single SELECT statements are allowed.''\<rparr>,
      live_engine)"
proof (intro conjI impI)
  assume h: "conn self = Some c \<and>
    CHR '';'' \<in> set (str_rstrip CHR '';'' (strip_sql_comments sql))"
  from h have a: "conn self = Some c" by (rule conjunct1)
  from h have b: "CHR '';'' \<in> set (str_rstrip CHR '';'' (strip_sql_comments sql))"
    by (rule conjunct2)
  from a b show "execute_select read_sql_query self sql =
        (\<lparr>status = ''warning'', df = None,
          message = ''Multiple SQL statements detected. Only single SELECT statements are allowed.''\<rparr>,
         self)"
    by (rule execute_select_multi)
next
  show "contains_dangerous_sql (strip_sql_comments ''SELECT * FROM t; DROP TABLE t;'') = Some ''DROP''"
    by code_simp
next
  show "execute_select logging_driver live_engine ''SELECT * FROM t; DROP TABLE t;'' =
     (\<lparr>status = ''warning'', df = None,
       message = ''Multiple SQL statements detected. Only single SELECT statements are allowed.''\<rparr>,
      live_engine)"
    by code_simp
qed

text \<open>
  Witness for C2, amended: two statements, the first behind a comment, on the connected
  sample engine.
\<close>

theorem gate_multi_statement_witness:
  "conn live_engine = Some [] \<and>
   CHR '';'' \<in> set (str_rstrip CHR '';'' (strip_sql_comments ''/* a */ SELECT 1; SELECT 2;;'')) \<and>
   execute_select logging_driver live_engine ''/* a */ SELECT 1; SELECT 2;;'' =
     (\<lparr>status = ''warning'', df = None,
       message = ''Multiple SQL statements detected. Only single SELECT statements are allowed.''\<rparr>,
      live_engine)"
proof -
  have c: "conn live_engine = Some []" by (simp add: live_engine_def)
  have m: "CHR '';'' \<in> set (str_rstrip CHR '';'' (strip_sql_comments ''/* a */ SELECT 1; SELECT 2;;''))"
    by code_simp
  from gate_multi_statement [of live_engine "[]" "''/* a */ SELECT 1; SELECT 2;;''" logging_driver]
    c m show ?thesis by blast
qed

text \<open>
  C3, as stated, fails: without a connection the outcome of \<open>execute_select\<close> is an
  error, not a warning.
\<close>

theorem no_connection_counterexample:
  "conn offline_engine = None \<and>
   status (fst (execute_select logging_driver offline_engine ''SELECT 1'')) = ''error'' \<and>
   status (fst (execute_select logging_driver offline_engine ''SELECT 1'')) \<noteq> ''warning''"
  by (simp add: execute_select_def offline_engine_def)

text \<open>
  C3, amended. For every input SQL string, \<open>execute_select\<close> on an engine without a
  live connection is rejected at once, before the text is looked at, with an Error outcome
  whose message is \<open>Not connected to database\<close>; the engine is left as it was.
\<close>

theorem no_connection_is_error:
  assumes "conn self = None"
  shows "execute_select read_sql_query self sql =
           (\<lparr>status = ''error'', df = None, message = ''Not connected to database''\<rparr>, self)"
  using assms by (simp add: execute_select_def)

text \<open>Witness for C3, amended: a statement with a denylisted keyword, no connection.\<close>

theorem no_connection_is_error_witness:
  "conn offline_engine = None \<and>
   execute_select logging_driver offline_engine ''DROP TABLE t; SELECT 1'' =
     (\<lparr>status = ''error'', df = None, message = ''Not connected to database''\<rparr>, offline_engine)"
proof -
  have c: "conn offline_engine = None" by (simp add: offline_engine_def)
  from no_connection_is_error [OF c, of logging_driver "''DROP TABLE t; SELECT 1''"] c
  show ?thesis by simp
qed

text \<open>
  C4. Whenever \<open>find_join_path\<close> returns a plan, every step of it is a real relationship
  edge of the model, in one direction or the other; and in the model of scenario 1 the
  request \<open>["Orders", "Customers"]\<close> returns exactly the step
  \<open>(Orders, Customers, CustomerID, CustomerID)\<close>.
\<close>

theorem find_join_path_steps_are_edges:
  "(find_join_path self ts = Some plan \<longrightarrow> (\<forall>s\<in>set plan. valid_step self s)) \<and>
   find_join_path scenario1 [''Orders'', ''Customers''] =
     Some [(''Orders'', ''Customers'', ''CustomerID'', ''CustomerID'')]"
proof
  show "find_join_path self ts = Some plan \<longrightarrow> (\<forall>s\<in>set plan. valid_step self s)"
  proof
    assume a: "find_join_path self ts = Some plan"
    then have "bfs_loop self \<lparr>queue = [(hd ts, [])], visited = [], targets = remdups (tl ts)\<rparr>
                 = Some plan"
      by (simp add: find_join_path_def split: if_splits)
    moreover have "paths_valid self \<lparr>queue = [(hd ts, [])], visited = [], targets = remdups (tl ts)\<rparr>"
      by (simp add: paths_valid_def)
    ultimately show "\<forall>s\<in>set plan. valid_step self s" by (rule bfs_loop_valid [rotated])
  qed
next
  show "find_join_path scenario1 [''Orders'', ''Customers''] =
     Some [(''Orders'', ''Customers'', ''CustomerID'', ''CustomerID'')]"
    by code_simp
qed

text \<open>
  Witness for C4: the cyclic model, asked for \<open>A\<close>, \<open>C\<close> and \<open>B\<close>. The plan has two
  steps, and both are foreign keys of the model.
\<close>

theorem find_join_path_steps_are_edges_witness:
  "find_join_path cyclic_schema [''A'', ''C'', ''B''] =
     Some [(''A'', ''B'', ''b'', ''id''), (''B'', ''C'', ''c'', ''id'')] \<and>
   valid_step cyclic_schema (''A'', ''B'', ''b'', ''id'') \<and>
   valid_step cyclic_schema (''B'', ''C'', ''c'', ''id'')"
proof -
  have p: "find_join_path cyclic_schema [''A'', ''C'', ''B''] =
     Some [(''A'', ''B'', ''b'', ''id''), (''B'', ''C'', ''c'', ''id'')]"
    by code_simp
  from find_join_path_steps_are_edges [of cyclic_schema "[''A'', ''C'', ''B'']"
      "[(''A'', ''B'', ''b'', ''id''), (''B'', ''C'', ''c'', ''id'')]"] p
  show ?thesis by simp
qed

text \<open>
  C5. For every schema model and every list of requested tables, cyclic or not,
  \<open>find_join_path\<close> terminates: there is a number of iterations of its loop within which
  it has returned, and what it returns then is the value of \<open>find_join_path\<close>.
\<close>

theorem find_join_path_terminates:
  "\<exists>n. find_join_path_within n self ts = Some (find_join_path self ts)"
  unfolding find_join_path_within_def find_join_path_def
  using bfs_within_enough by simp

text \<open>
  Witness for C5: the cyclic model. The request for \<open>A\<close> and the table \<open>D\<close>, which stands
  apart, returns \<open>None\<close> after finitely many iterations, and the request for three tables
  of the cycle returns a plan.
\<close>

theorem find_join_path_terminates_witness:
  "(\<exists>n. find_join_path_within n cyclic_schema [''A'', ''D''] = Some None) \<and>
   (\<exists>n. find_join_path_within n cyclic_schema [''A'', ''C'', ''B''] =
          Some (Some [(''A'', ''B'', ''b'', ''id''), (''B'', ''C'', ''c'', ''id'')]))"
proof -
  have a: "find_join_path cyclic_schema [''A'', ''D''] = None" by code_simp
  have b: "find_join_path cyclic_schema [''A'', ''C'', ''B''] =
     Some [(''A'', ''B'', ''b'', ''id''), (''B'', ''C'', ''c'', ''id'')]"
    by code_simp
  from find_join_path_terminates [of cyclic_schema "[''A'', ''D'']"]
    find_join_path_terminates [of cyclic_schema "[''A'', ''C'', ''B'']"]
  show ?thesis unfolding a b by simp
qed

text \<open>
  C6. \<open>find_join_path\<close> returns \<open>None\<close> on every list of fewer than two tables; it
  returns \<open>None\<close>, not an empty plan, whenever one of the requested tables is not connected
  to the first one; and the loop returns \<open>None\<close> whenever its queue is exhausted.
\<close>

theorem find_join_path_None:
  "(length ts < 2 \<longrightarrow> find_join_path self ts = None) \<and>
   ((\<exists>t\<in>set (tl ts). \<not> connected self (hd ts) t) \<longrightarrow> find_join_path self ts = None) \<and>
   (queue st = [] \<longrightarrow> bfs_loop self st = None)"
proof (intro conjI impI)
  assume "length ts < 2"
  then show "find_join_path self ts = None" by (simp add: find_join_path_def)
next
  assume "\<exists>t\<in>set (tl ts). \<not> connected self (hd ts) t"
  then obtain t where t: "t \<in> set (tl ts)" "\<not> connected self (hd ts) t" by blast
  show "find_join_path self ts = None"
  proof (cases "find_join_path self ts")
    case (Some plan)
    then have "connected self (hd ts) t" using t(1) by (rule find_join_path_connected)
    with t(2) show ?thesis by simp
  qed simp
next
  assume "queue st = []"
  then show "bfs_loop self st = None" by (rule bfs_loop_empty_queue)
qed

text \<open>
  Witness for C6: a single table; the two unrelated tables of \<open>islands\<close>; a state with an
  empty queue and a target left.
\<close>

theorem find_join_path_None_witness:
  "length [''Orders''] < 2 \<and> find_join_path scenario1 [''Orders''] = None \<and>
   ''B'' \<in> set (tl [''A'', ''B'']) \<and> \<not> connected islands (hd [''A'', ''B'']) ''B'' \<and>
   find_join_path islands [''A'', ''B''] = None \<and>
   queue \<lparr>queue = [], visited = [''A''], targets = [''B'']\<rparr> = [] \<and>
   bfs_loop islands \<lparr>queue = [], visited = [''A''], targets = [''B'']\<rparr> = None"
proof -
  have "linked islands = {}" by (simp add: linked_def rel_get_def islands_def)
  then have n: "\<not> connected islands (hd [''A'', ''B'']) ''B''" by (simp add: connected_def)
  have m: "''B'' \<in> set (tl [''A'', ''B''])" by simp
  from n m have e: "\<exists>t\<in>set (tl [''A'', ''B'']). \<not> connected islands (hd [''A'', ''B'']) t"
    by blast
  have l: "length [''Orders''] < 2" by simp
  have q: "queue \<lparr>queue = [], visited = [''A''], targets = [''B'']\<rparr> = []" by simp
  from find_join_path_None [of "[''Orders'']" scenario1 "\<lparr>queue = [], visited = [''A''], targets = [''B'']\<rparr>"] l
  have 1: "find_join_path scenario1 [''Orders''] = None" by blast
  from find_join_path_None [of "[''A'', ''B'']" islands "\<lparr>queue = [], visited = [''A''], targets = [''B'']\<rparr>"] e q
  have 2: "find_join_path islands [''A'', ''B''] = None"
    and 3: "bfs_loop islands \<lparr>queue = [], visited = [''A''], targets = [''B'']\<rparr> = None"
    by blast+
  from l 1 m n 2 q 3 show ?thesis by blast
qed

text \<open>
  C10. For every schema model and every table \<open>t\<close>, in the model or not,
  \<open>find_join_path([t, t])\<close> returns the empty plan, not \<open>None\<close>; and so does every request
  of at least two tables in which all tables after the first are the first one.
\<close>

theorem find_join_path_same_table:
  "find_join_path self [t, t] = Some [] \<and>
   (2 \<le> length ts \<and> set (tl ts) \<subseteq> {hd ts} \<longrightarrow> find_join_path self ts = Some [])"
proof -
  have g: "find_join_path self us = Some []" if "2 \<le> length us" and "set (tl us) \<subseteq> {hd us}" for us
  proof -
    from that(1) have "tl us \<noteq> []" by (cases us) auto
    with that(2) have "set (tl us) = {hd us}" by (cases "tl us") auto
    then have "set (remdups (tl us)) = {hd us}" "distinct (remdups (tl us))" by simp_all
    then have r: "remdups (tl us) = [hd us]" by (rule singleton_list [rotated])
    have "bfs_step self \<lparr>queue = [(hd us, [])], visited = [], targets = [hd us]\<rparr> = Return (Some [])"
      by (simp add: bfs_step_def)
    then have "bfs_loop self \<lparr>queue = [(hd us, [])], visited = [], targets = [hd us]\<rparr> = Some []"
      by (rule bfs_loop_Return)
    with that(1) r show ?thesis by (simp add: find_join_path_def)
  qed
  have "find_join_path self [t, t] = Some []" by (rule g) simp_all
  with g show ?thesis by blast
qed

text \<open>
  Witness for C10: the table \<open>Orders\<close> of scenario 1 asked for twice and three times.
\<close>

theorem find_join_path_same_table_witness:
  "find_join_path scenario1 [''Orders'', ''Orders''] = Some [] \<and>
   2 \<le> length [''Orders'', ''Orders'', ''Orders''] \<and>
   set (tl [''Orders'', ''Orders'', ''Orders'']) \<subseteq> {hd [''Orders'', ''Orders'', ''Orders'']} \<and>
   find_join_path scenario1 [''Orders'', ''Orders'', ''Orders''] = Some []"
proof -
  have a: "2 \<le> length [''Orders'', ''Orders'', ''Orders'']" by simp
  have b: "set (tl [''Orders'', ''Orders'', ''Orders'']) \<subseteq> {hd [''Orders'', ''Orders'', ''Orders'']}"
    by simp
  from find_join_path_same_table [of scenario1 "''Orders''" "[''Orders'', ''Orders'', ''Orders'']"] a b
  show ?thesis by blast
qed

section \<open>Lemmas on introspection and discovery\<close>










section \<open>The claims on introspection, drafting and discovery\<close>




text \<open>
  C8 at the failing input: the single table \<open>Orders\<close> in the SQL Server dialect. The
  draft carries no row limit at all, neither \<open>TOP 10\<close> nor \<open>LIMIT 10\<close>, whereas the
  drafts of the three other dialects end with \<open>LIMIT 10\<close> and the draft of a join in the
  SQL Server dialect starts with \<open>SELECT TOP 10\<close>.
\<close>

theorem single_table_draft_sqlserver:
  "sql_preview SQLSERVER scenario1 [''Orders''] [''Orders''] [] =
     ''SELECT\<newline>  *\<newline>FROM [Orders]\<newline>'' \<and>
   \<not> str_in ''TOP 10'' (sql_preview SQLSERVER scenario1 [''Orders''] [''Orders''] []) \<and>
   \<not> str_in ''LIMIT 10'' (sql_preview SQLSERVER scenario1 [''Orders''] [''Orders''] []) \<and>
   sql_preview MYSQL scenario1 [''Orders''] [''Orders''] [] =
     ''SELECT\<newline>  *\<newline>FROM `Orders`\<newline>LIMIT 10'' \<and>
   sql_preview SQLITE scenario1 [''Orders''] [''Orders''] [] =
     ''SELECT\<newline>  *\<newline>FROM '' @ q ''Orders'' SQLITE @ ''\<newline>LIMIT 10'' \<and>
   sql_preview POSTGRES scenario1 [''Orders''] [''Orders''] [] =
     ''SELECT\<newline>  *\<newline>FROM '' @ q ''Orders'' POSTGRES @ ''\<newline>LIMIT 10'' \<and>
   sql_preview SQLSERVER scenario1 [''Orders'', ''Customers''] [''Orders'', ''Customers''] [] =
     ''SELECT TOP 10\<newline>  *\<newline>FROM [Orders]\<newline>JOIN [Customers] ON [Orders].[CustomerID] = [Customers].[CustomerID]\<newline>''"
  by code_simp




end
